theory Spec2Isabelle
  imports Main "HOL-Library.Word"
begin

section \<open>The shared data of one join (parallel\_test\_2.cpp, parallel\_test\_3.cpp)\<close>

text \<open>
  \<open>ParallelCallbackData\<close> holds the completion \<open>std::function\<close>, an
  \<open>std::atomic<int>\<close> and an \<open>std::atomic<bool>\<close>. The counter is a 32-bit
  word, read as two's complement by \<open>sint\<close>: \<open>++\<close> and \<open>--\<close> on an atomic
  int wrap around. Of the completion
  only two things matter to the primitive: whether the \<open>std::function\<close> holds a target
  (its conversion to \<open>bool\<close>, the field \<open>callback\<close> below) and how often it
  has been called. The second is the observation \<open>calls\<close>, which extends the record and
  is incremented where the source runs \<open>data->callback()\<close>.
\<close>

type_synonym cint = "32 word"

record ParallelCallbackData =
  callback :: bool
  counter :: cint
  started :: bool

record join = ParallelCallbackData +
  calls :: nat

datatype error = AssertionFailed | NoMatchingOverload

text \<open>The constructor: \<open>callback(callback), counter(0), started(false)\<close>.\<close>

definition ParallelCallback :: "bool \<Rightarrow> join" where
  "ParallelCallback cb = \<lparr>callback = cb, counter = 0, started = False, calls = 0\<rparr>"

text \<open>
  \<open>step\<close>: \<open>counter-- == 0\<close> compares the value before the decrement;
  only then are \<open>started\<close> and the callback looked at.
\<close>

definition step :: "'a join_scheme \<Rightarrow> 'a join_scheme" where
  "step d =
     (let pre = counter d;
          d' = d\<lparr>counter := counter d - 1\<rparr>
      in if pre = 0
         then (if started d' \<and> callback d' then d'\<lparr>calls := calls d' + 1\<rparr> else d')
         else d')"

text \<open>
  \<open>operator Callback()\<close> mints a slot: the assertion, the increment, and a
  \<open>std::bind\<close> of \<open>step\<close> to the shared data. The slot it returns is
  \<open>step\<close> on the same data, so only the new state is returned here.
\<close>

definition mint :: "'a join_scheme \<Rightarrow> error + 'a join_scheme" where
  "mint d = (if started d then Inl AssertionFailed
             else Inr (d\<lparr>counter := counter d + 1\<rparr>))"

definition check :: "'a join_scheme \<Rightarrow> error + 'a join_scheme" where
  "check d = (if started d then Inl AssertionFailed
              else Inr (step (d\<lparr>started := True\<rparr>)))"

section \<open>The fan-out helper \<open>run\<close> (parallel\_test\_3.cpp)\<close>

text \<open>
  A starter is called with a slot. The slot is \<open>step\<close> bound to the shared data, so a
  starter is a function of the slot and the current data: it may call the slot before it
  returns, or keep it for a task that calls it later.

  \<open>operator()\<close> has two overloads, both with at least one argument:
  \<open>operator()(arg)\<close> runs \<open>arg(*this); check();\<close> and
  \<open>operator()(arg, args...)\<close> runs \<open>arg(*this); operator()(args...);\<close>.
  Passing \<open>*this\<close> to a starter converts it with \<open>operator Callback()\<close>, which is
  \<open>mint\<close>. A call without any argument matches neither overload, and the program
  is rejected by the compiler; that is the value \<open>NoMatchingOverload\<close>.
\<close>

type_synonym starter = "(join \<Rightarrow> join) \<Rightarrow> join \<Rightarrow> join"

fun call_operator :: "starter list \<Rightarrow> join \<Rightarrow> error + join" where
  "call_operator [] d = Inl NoMatchingOverload"
| "call_operator [arg] d =
     (case mint d of Inl x \<Rightarrow> Inl x | Inr d' \<Rightarrow> check (arg step d'))"
| "call_operator (arg # args) d =
     (case mint d of Inl x \<Rightarrow> Inl x | Inr d' \<Rightarrow> call_operator args (arg step d'))"

definition run :: "bool \<Rightarrow> starter list \<Rightarrow> error + join" where
  "run arg args = call_operator args (ParallelCallback arg)"

text \<open>Two starters: one keeps its slot for later, one calls it before returning.\<close>

definition later :: starter where
  "later slot d = d"

definition at_once :: starter where
  "at_once slot d = slot d"

text \<open>
  The helper as the specification words it, with the operations of its sections 4.1 to
  4.3 written out on their own. A fresh join state stores the completion, with pending 0
  and closed false. \<open>try_fire\<close> decrements pending; the winner is the caller whose
  fetched value was 0, it invokes the completion if closed is true, and firing an empty
  completion does nothing. \<open>mint\<close> is valid only before close and increments pending;
  the slot it yields is \<open>try_fire\<close>. \<open>close\<close> is valid only once, sets closed and
  performs one \<open>try_fire\<close>. The helper makes one join over the completion; for each
  starter in sequence it mints a slot and calls the starter with it; after the last
  starter it closes.
\<close>

definition JoinState_construct :: "bool \<Rightarrow> join" where
  "JoinState_construct completion =
     \<lparr>callback = completion, counter = 0, started = False, calls = 0\<rparr>"

definition JoinState_try_fire :: "join \<Rightarrow> join" where
  "JoinState_try_fire d =
     (if counter d = 0 \<and> started d \<and> callback d
      then d\<lparr>counter := counter d - 1, calls := calls d + 1\<rparr>
      else d\<lparr>counter := counter d - 1\<rparr>)"

definition JoinCallback_mint :: "join \<Rightarrow> error + join" where
  "JoinCallback_mint d =
     (if started d then Inl AssertionFailed else Inr (d\<lparr>counter := counter d + 1\<rparr>))"

definition JoinCallback_close :: "join \<Rightarrow> error + join" where
  "JoinCallback_close d =
     (if started d then Inl AssertionFailed
      else Inr (JoinState_try_fire (d\<lparr>started := True\<rparr>)))"

fun start_each :: "starter list \<Rightarrow> join \<Rightarrow> error + join" where
  "start_each [] d = Inr d"
| "start_each (s # ss) d =
     (case JoinCallback_mint d of
        Inl x \<Rightarrow> Inl x
      | Inr d' \<Rightarrow> start_each ss (s JoinState_try_fire d'))"

definition run_spec :: "bool \<Rightarrow> starter list \<Rightarrow> error + join" where
  "run_spec completion starters =
     (case start_each starters (JoinState_construct completion) of
        Inl x \<Rightarrow> Inl x
      | Inr d \<Rightarrow> JoinCallback_close d)"

section \<open>Runs of one join\<close>

text \<open>
  A run is the sequence of calls made on one handle and its slots: a mint, the call of
  the slot minted as number \<open>i\<close> (counted from 0), or \<open>check\<close>. Each call is
  taken as a whole, in the order in which the calls happen.
\<close>

datatype event = Mint | Invoke nat | Close

fun apply_event :: "event \<Rightarrow> join \<Rightarrow> error + join" where
  "apply_event Mint d = mint d"
| "apply_event (Invoke i) d = Inr (step d)"
| "apply_event Close d = check d"

fun exec :: "event list \<Rightarrow> join \<Rightarrow> error + join" where
  "exec [] d = Inr d"
| "exec (e # es) d = (case apply_event e d of Inl x \<Rightarrow> Inl x | Inr d' \<Rightarrow> exec es d')"

text \<open>
  The caller's obligations, tracked along a run: how many slots were minted, which were
  invoked, and whether \<open>check\<close> was called. A mint and \<open>check\<close> are allowed only
  before \<open>check\<close>; a slot may be invoked once, after it was minted.
\<close>

record usage =
  minted :: nat
  invoked :: "nat list"
  closed :: bool

definition unused :: usage where
  "unused = \<lparr>minted = 0, invoked = [], closed = False\<rparr>"

fun permitted :: "usage \<Rightarrow> event \<Rightarrow> bool" where
  "permitted u Mint = (\<not> closed u)"
| "permitted u (Invoke i) = (i < minted u \<and> i \<notin> set (invoked u))"
| "permitted u Close = (\<not> closed u)"

fun noted :: "usage \<Rightarrow> event \<Rightarrow> usage" where
  "noted u Mint = u\<lparr>minted := Suc (minted u)\<rparr>"
| "noted u (Invoke i) = u\<lparr>invoked := i # invoked u\<rparr>"
| "noted u Close = u\<lparr>closed := True\<rparr>"

fun obeys :: "usage \<Rightarrow> event list \<Rightarrow> bool" where
  "obeys u [] = True"
| "obeys u (e # es) = (permitted u e \<and> obeys (noted u e) es)"

fun usage_after :: "usage \<Rightarrow> event list \<Rightarrow> usage" where
  "usage_after u [] = u"
| "usage_after u (e # es) = usage_after (noted u e) es"

definition mints :: "event list \<Rightarrow> nat" where
  "mints tr = count_list tr Mint"

fun invocations :: "event list \<Rightarrow> nat list" where
  "invocations [] = []"
| "invocations (Invoke i # es) = i # invocations es"
| "invocations (e # es) = invocations es"

definition complete_run :: "nat \<Rightarrow> event list \<Rightarrow> bool" where
  "complete_run N tr \<longleftrightarrow>
     obeys unused tr \<and> mints tr = N \<and> Close \<in> set tr \<and> (\<forall>i<N. i \<in> set (invocations tr))"

text \<open>Every mint precedes the one \<open>check\<close>; slot calls are not restricted.\<close>

fun in_order :: "bool \<Rightarrow> event list \<Rightarrow> bool" where
  "in_order c [] = True"
| "in_order c (Mint # es) = (\<not> c \<and> in_order c es)"
| "in_order c (Invoke i # es) = in_order c es"
| "in_order c (Close # es) = (\<not> c \<and> in_order True es)"

text \<open>
  The value the counter stands for, and the relation between the obligations met so far
  and the shared data.
\<close>

definition pending :: "usage \<Rightarrow> int" where
  "pending u = int (minted u) - int (length (invoked u)) - (if closed u then 1 else 0)"

definition accounted :: "usage \<Rightarrow> join \<Rightarrow> bool" where
  "accounted u d \<longleftrightarrow>
     distinct (invoked u) \<and> set (invoked u) \<subseteq> {..<minted u} \<and>
     counter d = word_of_int (pending u) \<and>
     started d = closed u \<and>
     calls d = (if closed u \<and> length (invoked u) = minted u \<and> callback d then 1 else 0)"

section \<open>The accesses of one join, one at a time\<close>

text \<open>
  \<open>step\<close> touches the shared data twice: \<open>counter--\<close> fetches the counter and
  decrements it in one atomic access, and the test of \<open>started\<close> and of the callback
  comes afterwards, when other threads may have run. Both atomics are used with the
  default, sequentially consistent order, so a concurrent run is an interleaving of the
  accesses. Here each access is an event of its own. The callers of \<open>step\<close> are the
  slots and \<open>check\<close>; between its two accesses a caller holds the value it fetched,
  and a test by a caller that holds none changes nothing. \<open>Minting\<close> is
  \<open>operator Callback()\<close>, and \<open>Closing\<close> is the first half of \<open>check\<close>: the
  assertion and the store to \<open>started\<close>. Each of the two is one event: the slots
  never write \<open>started\<close>, which is all that the assertions read.
\<close>

datatype caller = Slot nat | Closer

datatype access = Minting | Closing | Fetch caller | Test caller

record atomic = join +
  fetched :: "caller \<Rightarrow> cint option"

definition new_handle :: "bool \<Rightarrow> atomic" where
  "new_handle cb = \<lparr>callback = cb, counter = 0, started = False, calls = 0, fetched = (\<lambda>w. None)\<rparr>"

definition fetch :: "caller \<Rightarrow> atomic \<Rightarrow> atomic" where
  "fetch w d = d\<lparr>counter := counter d - 1, fetched := (fetched d)(w \<mapsto> counter d)\<rparr>"

definition test :: "caller \<Rightarrow> atomic \<Rightarrow> atomic" where
  "test w d =
     (case fetched d w of
        None \<Rightarrow> d
      | Some pre \<Rightarrow>
          (let d' = d\<lparr>fetched := (fetched d)(w := None)\<rparr>
           in if pre = 0
              then (if started d' \<and> callback d' then d'\<lparr>calls := calls d' + 1\<rparr> else d')
              else d'))"

fun perform :: "access \<Rightarrow> atomic \<Rightarrow> error + atomic" where
  "perform Minting d = mint d"
| "perform Closing d = (if started d then Inl AssertionFailed else Inr (d\<lparr>started := True\<rparr>))"
| "perform (Fetch w) d = Inr (fetch w d)"
| "perform (Test w) d = Inr (test w d)"

fun accesses :: "access list \<Rightarrow> atomic \<Rightarrow> error + atomic" where
  "accesses [] d = Inr d"
| "accesses (a # as) d = (case perform a d of Inl x \<Rightarrow> Inl x | Inr d' \<Rightarrow> accesses as d')"

text \<open>
  The order that the program and its contract impose on the accesses: every mint comes
  before the one store of \<open>check\<close>; slot \<open>i\<close> fetches once, after its mint;
  \<open>check\<close> fetches once, after its store; a caller tests once, after its fetch.
\<close>

record progress =
  issued :: nat
  stored :: bool
  fetchers :: "caller list"
  testers :: "caller list"

definition nothing :: progress where
  "nothing = \<lparr>issued = 0, stored = False, fetchers = [], testers = []\<rparr>"

fun allowed :: "progress \<Rightarrow> access \<Rightarrow> bool" where
  "allowed p Minting = (\<not> stored p)"
| "allowed p Closing = (\<not> stored p)"
| "allowed p (Fetch (Slot i)) = (i < issued p \<and> Slot i \<notin> set (fetchers p))"
| "allowed p (Fetch Closer) = (stored p \<and> Closer \<notin> set (fetchers p))"
| "allowed p (Test w) = (w \<in> set (fetchers p) \<and> w \<notin> set (testers p))"

fun advance :: "progress \<Rightarrow> access \<Rightarrow> progress" where
  "advance p Minting = p\<lparr>issued := Suc (issued p)\<rparr>"
| "advance p Closing = p\<lparr>stored := True\<rparr>"
| "advance p (Fetch w) = p\<lparr>fetchers := w # fetchers p\<rparr>"
| "advance p (Test w) = p\<lparr>testers := w # testers p\<rparr>"

fun in_program_order :: "progress \<Rightarrow> access list \<Rightarrow> bool" where
  "in_program_order p [] = True"
| "in_program_order p (a # as) = (allowed p a \<and> in_program_order (advance p a) as)"

fun progress_after :: "progress \<Rightarrow> access list \<Rightarrow> progress" where
  "progress_after p [] = p"
| "progress_after p (a # as) = progress_after (advance p a) as"

definition issues :: "access list \<Rightarrow> nat" where
  "issues tr = count_list tr Minting"

definition finished :: "nat \<Rightarrow> access list \<Rightarrow> bool" where
  "finished N tr \<longleftrightarrow>
     in_program_order nothing tr \<and> issues tr = N \<and>
     Test Closer \<in> set tr \<and> (\<forall>i<N. Test (Slot i) \<in> set tr)"

text \<open>
  The relation between the accesses made so far and the data. The caller that fetched a 0
  is the one whose fetch was the last of all: the head of \<open>fetchers\<close> once every slot
  and \<open>check\<close> have fetched.
\<close>

definition tallied :: "progress \<Rightarrow> atomic \<Rightarrow> bool" where
  "tallied p d \<longleftrightarrow>
     distinct (fetchers p) \<and> set (testers p) \<subseteq> set (fetchers p) \<and>
     (\<forall>i. Slot i \<in> set (fetchers p) \<longrightarrow> i < issued p) \<and>
     (Closer \<in> set (fetchers p) \<longrightarrow> stored p) \<and>
     counter d = word_of_int (int (issued p) - int (length (fetchers p))) \<and>
     started d = stored p \<and>
     (\<forall>w. fetched d w \<noteq> None \<longleftrightarrow> w \<in> set (fetchers p) \<and> w \<notin> set (testers p)) \<and>
     (\<forall>w. fetched d w = Some 0 \<longleftrightarrow>
        fetched d w \<noteq> None \<and> length (fetchers p) = Suc (issued p) \<and> w = hd (fetchers p)) \<and>
     calls d = (if callback d \<and> length (fetchers p) = Suc (issued p) \<and>
                   hd (fetchers p) \<in> set (testers p) then 1 else 0)"

text \<open>A call taken as a whole is its accesses one after the other.\<close>

fun atoms :: "event \<Rightarrow> access list" where
  "atoms Mint = [Minting]"
| "atoms (Invoke i) = [Fetch (Slot i), Test (Slot i)]"
| "atoms Close = [Closing, Fetch Closer, Test Closer]"

definition whole :: "join \<Rightarrow> atomic" where
  "whole d = join.extend d (atomic.fields (\<lambda>w. None))"

section \<open>The assertions and the writes that follow them\<close>

text \<open>
  In \<open>operator Callback()\<close> the assertion reads \<open>started\<close> and the increment comes
  in a second access; in \<open>check\<close> the assertion reads \<open>started\<close> and the store comes
  in a second access. Calls made by different threads can overlap between the two. Here
  the assertion and the write are events of their own; \<open>Step\<close> is a call of
  \<open>step\<close>, by a slot or by \<open>check\<close>. A failed assertion aborts the program.
\<close>

datatype part = AssertMint | IncrementMint | AssertCheck | StoreCheck | Step

fun do_part :: "part \<Rightarrow> join \<Rightarrow> error + join" where
  "do_part AssertMint d = (if started d then Inl AssertionFailed else Inr d)"
| "do_part IncrementMint d = Inr (d\<lparr>counter := counter d + 1\<rparr>)"
| "do_part AssertCheck d = (if started d then Inl AssertionFailed else Inr d)"
| "do_part StoreCheck d = Inr (d\<lparr>started := True\<rparr>)"
| "do_part Step d = Inr (step d)"

fun parts :: "part list \<Rightarrow> join \<Rightarrow> error + join" where
  "parts [] d = Inr d"
| "parts (p # ps) d = (case do_part p d of Inl x \<Rightarrow> Inl x | Inr d' \<Rightarrow> parts ps d')"

text \<open>A call taken as a whole is its parts one after the other.\<close>

fun parts_of :: "event \<Rightarrow> part list" where
  "parts_of Mint = [AssertMint, IncrementMint]"
| "parts_of (Invoke i) = [Step]"
| "parts_of Close = [AssertCheck, StoreCheck, Step]"

text \<open>No assertion is evaluated after a store to \<open>started\<close>.\<close>

fun asserts_before_store :: "bool \<Rightarrow> part list \<Rightarrow> bool" where
  "asserts_before_store c [] = True"
| "asserts_before_store c (AssertMint # ps) = (\<not> c \<and> asserts_before_store c ps)"
| "asserts_before_store c (AssertCheck # ps) = (\<not> c \<and> asserts_before_store c ps)"
| "asserts_before_store c (StoreCheck # ps) = asserts_before_store True ps"
| "asserts_before_store c (p # ps) = asserts_before_store c ps"

section \<open>The first version: a counter and a lambda (parallel\_test\_1.cpp)\<close>









section \<open>What \<open>step\<close> does\<close>

lemma step_counter [simp]: "counter (step d) = counter d - 1"
  by (simp add: step_def Let_def)

lemma step_started [simp]: "started (step d) = started d"
  by (simp add: step_def Let_def)

lemma step_callback [simp]: "callback (step d) = callback d"
  by (simp add: step_def Let_def)

lemma step_calls:
  "calls (step d) = (if counter d = 0 \<and> started d \<and> callback d then calls d + 1 else calls d)"
  by (simp add: step_def Let_def)

section \<open>The counter as a 32-bit word\<close>

lemma cint_zero_iff:
  "- (2 ^ 31) \<le> v \<Longrightarrow> v < 2 ^ 31 \<Longrightarrow> (word_of_int v :: cint) = 0 \<longleftrightarrow> v = 0"
  by (auto simp add: word_of_int_eq_0_iff dest: zdvd_imp_le)

lemma cint_sint:
  "- (2 ^ 31) \<le> v \<Longrightarrow> v < 2 ^ 31 \<Longrightarrow> sint (word_of_int v :: cint) = v"
  by (simp add: sint_sbintrunc' signed_take_bit_int_eq_self)

section \<open>Runs and the obligations tracked along them\<close>

lemma minted_after: "minted (usage_after u tr) = minted u + mints tr"
proof (induction tr arbitrary: u)
  case Nil
  show ?case by (simp add: mints_def)
next
  case (Cons e es)
  then show ?case by (cases e) (simp_all add: mints_def)
qed

lemma invoked_after: "invoked (usage_after u tr) = rev (invocations tr) @ invoked u"
proof (induction tr arbitrary: u)
  case Nil
  show ?case by simp
next
  case (Cons e es)
  then show ?case by (cases e) simp_all
qed

lemma closed_after: "closed (usage_after u tr) \<longleftrightarrow> closed u \<or> Close \<in> set tr"
proof (induction tr arbitrary: u)
  case Nil
  show ?case by simp
next
  case (Cons e es)
  then show ?case by (cases e) auto
qed

lemma pending_after:
  "pending (usage_after unused tr) =
     int (mints tr) - int (length (invocations tr)) - (if Close \<in> set tr then 1 else 0)"
  by (simp add: pending_def minted_after invoked_after closed_after unused_def)

lemma obeys_append: "obeys u (xs @ ys) \<longleftrightarrow> obeys u xs \<and> obeys (usage_after u xs) ys"
  by (induction xs arbitrary: u) simp_all

lemma exec_append:
  "exec (xs @ ys) d = (case exec xs d of Inl x \<Rightarrow> Inl x | Inr d' \<Rightarrow> exec ys d')"
  by (induction xs arbitrary: d) (simp_all split: sum.splits)

lemma mints_append: "mints (xs @ ys) = mints xs + mints ys"
  by (simp add: mints_def)

lemma no_mint_when_closed: "closed u \<Longrightarrow> obeys u tr \<Longrightarrow> mints tr = 0"
proof (induction tr arbitrary: u)
  case Nil
  show ?case by (simp add: mints_def)
next
  case (Cons e es)
  show ?case
  proof (cases e)
    case Mint
    with Cons.prems show ?thesis by simp
  next
    case (Invoke i)
    with Cons.prems have "closed (noted u e)" "obeys (noted u e) es" by simp_all
    from Cons.IH[OF this] Invoke show ?thesis by (simp add: mints_def)
  next
    case Close
    with Cons.prems show ?thesis by simp
  qed
qed

lemma exec_error: "exec tr d = Inl x \<Longrightarrow> x = AssertionFailed"
proof (induction tr arbitrary: d)
  case Nil
  then show ?case by simp
next
  case (Cons e es)
  then show ?case
    by (cases e) (auto simp: mint_def check_def split: sum.splits if_splits)
qed

lemma exec_started: "started d \<Longrightarrow> exec tr d = Inr d' \<Longrightarrow> started d'"
proof (induction tr arbitrary: d)
  case Nil
  then show ?case by simp
next
  case (Cons e es)
  show ?case
  proof (cases e)
    case Mint
    with Cons.prems show ?thesis by (simp add: mint_def)
  next
    case (Invoke i)
    with Cons.prems have "started (step d)" "exec es (step d) = Inr d'" by simp_all
    then show ?thesis by (rule Cons.IH)
  next
    case Close
    with Cons.prems show ?thesis by (simp add: check_def)
  qed
qed

lemma exec_in_order: "(\<exists>d'. exec tr d = Inr d') \<longleftrightarrow> in_order (started d) tr"
proof (induction tr arbitrary: d)
  case Nil
  show ?case by simp
next
  case (Cons e es)
  show ?case
  proof (cases e)
    case Mint
    with Cons.IH[of "d\<lparr>counter := counter d + 1\<rparr>"] show ?thesis by (simp add: mint_def)
  next
    case (Invoke i)
    with Cons.IH[of "step d"] show ?thesis by simp
  next
    case Close
    with Cons.IH[of "step (d\<lparr>started := True\<rparr>)"] show ?thesis by (simp add: check_def)
  qed
qed

lemma after_close_started:
  assumes "exec (pre @ Close # mid) d = Inr d'"
  shows "started d'"
proof -
  from assms obtain d1 d2 where "exec pre d = Inr d1" "check d1 = Inr d2" "exec mid d2 = Inr d'"
    by (auto simp: exec_append split: sum.splits)
  moreover from this have "started d2" by (auto simp: check_def split: if_splits)
  ultimately show ?thesis by (auto dest: exec_started)
qed

lemma exec_stops:
  assumes "\<And>d'. exec xs d = Inr d' \<Longrightarrow> apply_event e d' = Inl AssertionFailed"
  shows "exec (xs @ e # ys) d = Inl AssertionFailed"
proof (cases "exec xs d")
  case (Inl x)
  then show ?thesis by (simp add: exec_append exec_error)
next
  case (Inr d')
  with assms[OF Inr] show ?thesis by (simp add: exec_append)
qed

lemma exec_before_check:
  assumes "Close \<notin> set tr" "\<not> started d"
  shows "\<exists>d'. exec tr d = Inr d' \<and> \<not> started d' \<and> calls d' = calls d \<and>
              callback d' = callback d \<and>
              counter d' = counter d + word_of_nat (mints tr) - word_of_nat (length (invocations tr))"
  using assms
proof (induction tr arbitrary: d)
  case Nil
  then show ?case by (simp add: mints_def)
next
  case (Cons e es)
  show ?case
  proof (cases e)
    case Mint
    let ?d = "d\<lparr>counter := counter d + 1\<rparr>"
    from Cons.prems have "Close \<notin> set es" "\<not> started ?d" by simp_all
    from Cons.IH[OF this] Mint Cons.prems show ?thesis by (auto simp add: mint_def mints_def)
  next
    case (Invoke i)
    from Cons.prems have "Close \<notin> set es" "\<not> started (step d)" by simp_all
    from Cons.IH[OF this] Invoke Cons.prems show ?thesis by (auto simp add: step_calls mints_def)
  next
    case Close
    with Cons.prems show ?thesis by simp
  qed
qed

lemma empty_completion_never_called:
  assumes "\<not> callback d" "exec tr d = Inr d'"
  shows "calls d' = calls d"
  using assms
proof (induction tr arbitrary: d)
  case Nil
  then show ?case by simp
next
  case (Cons e es)
  show ?case
  proof (cases e)
    case Mint
    with Cons.prems have "exec es (d\<lparr>counter := counter d + 1\<rparr>) = Inr d'"
      by (simp add: mint_def split: if_splits)
    with Cons.IH[of "d\<lparr>counter := counter d + 1\<rparr>"] Cons.prems(1) show ?thesis by simp
  next
    case (Invoke i)
    with Cons.prems have "exec es (step d) = Inr d'" by simp
    with Cons.IH[of "step d"] Cons.prems(1) show ?thesis by (simp add: step_calls)
  next
    case Close
    with Cons.prems have "exec es (step (d\<lparr>started := True\<rparr>)) = Inr d'"
      by (simp add: check_def split: if_splits)
    with Cons.IH[of "step (d\<lparr>started := True\<rparr>)"] Cons.prems(1) show ?thesis
      by (simp add: step_calls)
  qed
qed

section \<open>The data reached by a run that keeps the contract\<close>

lemma invoked_le_minted:
  assumes "distinct xs" "set xs \<subseteq> {..<m}"
  shows "length xs \<le> m"
proof -
  have "card (set xs) \<le> card {..<m}" using assms(2) by (intro card_mono) auto
  with assms(1) show ?thesis by (simp add: distinct_card)
qed

lemma accounted_event:
  assumes "accounted u d" "permitted u e" "minted (noted u e) < 2 ^ 31"
  shows "\<exists>d'. apply_event e d = Inr d' \<and> accounted (noted u e) d' \<and> callback d' = callback d"
proof (cases e)
  case Mint
  with assms show ?thesis
    by (auto simp: accounted_def pending_def mint_def dest: invoked_le_minted)
next
  case (Invoke i)
  from assms have len: "length (invoked u) \<le> minted u"
    by (auto simp: accounted_def dest: invoked_le_minted)
  from assms Invoke have "distinct (i # invoked u)" "set (i # invoked u) \<subseteq> {..<minted u}"
    by (auto simp: accounted_def)
  then have len': "Suc (length (invoked u)) \<le> minted u"
    using invoked_le_minted[of "i # invoked u" "minted u"] by simp
  have z: "(word_of_int (pending u) :: cint) = 0 \<longleftrightarrow> pending u = 0"
    using assms(3) Invoke len' by (intro cint_zero_iff) (auto simp: pending_def)
  show ?thesis using assms Invoke len' z
    by (auto simp: accounted_def pending_def step_calls)
next
  case Close
  from assms have len: "length (invoked u) \<le> minted u"
    by (auto simp: accounted_def dest: invoked_le_minted)
  have z: "(word_of_int (pending u) :: cint) = 0 \<longleftrightarrow> pending u = 0"
    using assms(3) Close len by (intro cint_zero_iff) (auto simp: pending_def)
  show ?thesis using assms Close len z
    by (auto simp: accounted_def pending_def check_def step_calls)
qed

lemma minted_noted: "minted u \<le> minted (noted u e)"
  by (cases e) auto

lemma minted_usage_after: "minted u \<le> minted (usage_after u tr)"
proof (induction tr arbitrary: u)
  case Nil
  show ?case by simp
next
  case (Cons e es)
  have "minted u \<le> minted (noted u e)" by (rule minted_noted)
  also have "\<dots> \<le> minted (usage_after (noted u e) es)" by (rule Cons.IH)
  finally show ?case by simp
qed

lemma accounted_exec:
  assumes "accounted u d" "obeys u tr" "minted (usage_after u tr) < 2 ^ 31"
  shows "\<exists>d'. exec tr d = Inr d' \<and> accounted (usage_after u tr) d' \<and> callback d' = callback d"
  using assms
proof (induction tr arbitrary: u d)
  case Nil
  then show ?case by simp
next
  case (Cons e es)
  have "minted (noted u e) \<le> minted (usage_after (noted u e) es)"
    by (rule minted_usage_after)
  with Cons.prems have small: "minted (noted u e) < 2 ^ 31" by simp
  from Cons.prems have "permitted u e" by simp
  from accounted_event[OF Cons.prems(1) this small]
  obtain d1 where d1: "apply_event e d = Inr d1" "accounted (noted u e) d1" "callback d1 = callback d"
    by blast
  from Cons.prems have "obeys (noted u e) es" "minted (usage_after (noted u e) es) < 2 ^ 31"
    by simp_all
  from Cons.IH[OF d1(2) this] d1 show ?case by auto
qed

lemma accounted_start: "accounted unused (ParallelCallback cb)"
  by (simp add: accounted_def unused_def ParallelCallback_def pending_def)

lemma run_accounted:
  assumes "obeys unused tr" "mints tr < 2 ^ 31"
  shows "\<exists>d. exec tr (ParallelCallback cb) = Inr d \<and> accounted (usage_after unused tr) d \<and>
             callback d = cb"
proof -
  from assms(2) have "minted (usage_after unused tr) < 2 ^ 31"
    by (simp add: minted_after unused_def)
  from accounted_exec[OF accounted_start assms(1) this, of cb]
  show ?thesis by (simp add: ParallelCallback_def)
qed

lemma invocations_le_mints:
  assumes "accounted (usage_after unused tr) d"
  shows "length (invocations tr) \<le> mints tr"
  using assms invoked_le_minted[of "invoked (usage_after unused tr)" "minted (usage_after unused tr)"]
  by (simp add: accounted_def minted_after invoked_after unused_def)

lemma complete_all_invoked:
  assumes "complete_run N tr" "accounted (usage_after unused tr) d"
  shows "length (invocations tr) = N"
proof -
  from assms(1) have "{..<N} \<subseteq> set (invocations tr)" by (auto simp: complete_run_def)
  then have "card {..<N} \<le> card (set (invocations tr))" by (intro card_mono) auto
  also have "\<dots> \<le> length (invocations tr)" by (rule card_length)
  finally have "N \<le> length (invocations tr)" by simp
  moreover from assms have "length (invocations tr) \<le> N"
    using invocations_le_mints[OF assms(2)] by (simp add: complete_run_def)
  ultimately show ?thesis by simp
qed

lemma step_try_fire: "step = JoinState_try_fire"
  by (rule ext) (simp add: step_def JoinState_try_fire_def Let_def)

lemma mint_JoinCallback_mint: "mint d = JoinCallback_mint d"
  by (simp add: mint_def JoinCallback_mint_def)

lemma check_JoinCallback_close: "check d = JoinCallback_close d"
  by (simp add: check_def JoinCallback_close_def step_try_fire)

lemma call_operator_start_each:
  "args \<noteq> [] \<Longrightarrow>
   call_operator args d =
     (case start_each args d of Inl x \<Rightarrow> Inl x | Inr d' \<Rightarrow> JoinCallback_close d')"
proof (induction args d rule: call_operator.induct)
  case (1 d)
  then show ?case by simp
next
  case (2 arg d)
  show ?case
    by (simp add: mint_JoinCallback_mint check_JoinCallback_close step_try_fire
        split: sum.splits)
next
  case (3 arg v va d)
  then show ?case
    by (simp add: mint_JoinCallback_mint step_try_fire split: sum.splits)
qed

lemma start_each_at_once:
  "\<not> started d \<Longrightarrow> start_each (replicate n at_once) d = Inr d"
  by (induction n)
    (simp_all add: JoinCallback_mint_def JoinState_try_fire_def at_once_def)

lemma start_each_later:
  "\<not> started d \<Longrightarrow>
   start_each (replicate n later) d = Inr (d\<lparr>counter := counter d + word_of_nat n\<rparr>)"
proof (induction n arbitrary: d)
  case 0
  show ?case by simp
next
  case (Suc n)
  from Suc.prems have "\<not> started (d\<lparr>counter := counter d + 1\<rparr>)" by simp
  from Suc.IH[OF this] Suc.prems show ?case
    by (simp add: JoinCallback_mint_def later_def add.assoc)
qed

lemma parts_error: "parts ps d = Inl x \<Longrightarrow> x = AssertionFailed"
proof (induction ps arbitrary: d)
  case Nil
  then show ?case by simp
next
  case (Cons p ps)
  then show ?case by (cases p) (auto split: if_splits)
qed

lemma parts_append:
  "parts (xs @ ys) d = (case parts xs d of Inl x \<Rightarrow> Inl x | Inr d' \<Rightarrow> parts ys d')"
  by (induction xs arbitrary: d) (simp_all split: sum.splits)

lemma parts_started: "started d \<Longrightarrow> parts ps d = Inr d' \<Longrightarrow> started d'"
proof (induction ps arbitrary: d)
  case Nil
  then show ?case by simp
next
  case (Cons p ps)
  show ?case
  proof (cases p)
    case Step
    with Cons.prems have "started (step d)" "parts ps (step d) = Inr d'" by simp_all
    then show ?thesis by (rule Cons.IH)
  next
    case IncrementMint
    with Cons.prems have "started (d\<lparr>counter := counter d + 1\<rparr>)"
      "parts ps (d\<lparr>counter := counter d + 1\<rparr>) = Inr d'" by simp_all
    then show ?thesis by (rule Cons.IH)
  next
    case StoreCheck
    with Cons.prems have "started (d\<lparr>started := True\<rparr>)"
      "parts ps (d\<lparr>started := True\<rparr>) = Inr d'" by simp_all
    then show ?thesis by (rule Cons.IH)
  qed (use Cons.prems in simp_all)
qed

lemma after_store_started:
  assumes "parts (pre @ StoreCheck # mid) d = Inr d'"
  shows "started d'"
proof -
  from assms obtain d1 where "parts pre d = Inr d1" "parts mid (d1\<lparr>started := True\<rparr>) = Inr d'"
    by (auto simp: parts_append split: sum.splits)
  then show ?thesis using parts_started[of "d1\<lparr>started := True\<rparr>" mid d'] by simp
qed

lemma parts_stop:
  assumes "\<And>d'. parts xs d = Inr d' \<Longrightarrow> do_part p d' = Inl AssertionFailed"
  shows "parts (xs @ p # ys) d = Inl AssertionFailed"
proof (cases "parts xs d")
  case (Inl x)
  then show ?thesis by (simp add: parts_append parts_error)
next
  case (Inr d')
  with assms[OF Inr] show ?thesis by (simp add: parts_append)
qed

lemma parts_asserts_before_store:
  "(\<exists>d'. parts ps d = Inr d') \<longleftrightarrow> asserts_before_store (started d) ps"
proof (induction ps arbitrary: d)
  case Nil
  show ?case by simp
next
  case (Cons p ps)
  show ?case
  proof (cases p)
    case AssertMint
    with Cons.IH[of d] show ?thesis by simp
  next
    case IncrementMint
    with Cons.IH[of "d\<lparr>counter := counter d + 1\<rparr>"] show ?thesis by simp
  next
    case AssertCheck
    with Cons.IH[of d] show ?thesis by simp
  next
    case StoreCheck
    with Cons.IH[of "d\<lparr>started := True\<rparr>"] show ?thesis by simp
  next
    case Step
    with Cons.IH[of "step d"] show ?thesis by simp
  qed
qed

lemma parts_of_apply_event: "parts (parts_of e) d = apply_event e d"
  by (cases e) (simp_all add: mint_def check_def)

lemma whole_calls_are_runs_of_parts: "parts (concat (map parts_of tr)) d = exec tr d"
proof (induction tr arbitrary: d)
  case Nil
  show ?case by simp
next
  case (Cons e es)
  then show ?case by (simp add: parts_append parts_of_apply_event split: sum.splits)
qed

section \<open>Runs of single accesses\<close>

text \<open>The two accesses of \<open>step\<close>, one right after the other, are \<open>step\<close>.\<close>

lemma test_fetch_is_step:
  "fetched d w = None \<Longrightarrow> test w (fetch w d) = step d"
  by (simp add: test_def fetch_def step_def Let_def fun_upd_idem)

lemma whole_fields [simp]:
  "callback (whole d) = callback d" "counter (whole d) = counter d"
  "started (whole d) = started d" "calls (whole d) = calls d" "fetched (whole d) = (\<lambda>w. None)"
  by (simp_all add: whole_def join.defs atomic.defs ParallelCallbackData.defs)

lemma whole_step: "whole (step d) = step (whole d)"
  by (simp add: whole_def step_def Let_def join.defs atomic.defs ParallelCallbackData.defs)

lemma whole_started: "whole (d\<lparr>started := True\<rparr>) = (whole d)\<lparr>started := True\<rparr>"
  by (simp add: whole_def join.defs atomic.defs ParallelCallbackData.defs)

lemma whole_new: "whole (ParallelCallback cb) = new_handle cb"
  by (simp add: whole_def ParallelCallback_def new_handle_def join.defs atomic.defs
      ParallelCallbackData.defs)

lemma atoms_apply_event:
  "accesses (atoms e) (whole d) = map_sum id whole (apply_event e d)"
  by (cases e) (simp_all add: mint_def check_def test_fetch_is_step whole_step whole_started)

lemma accesses_append:
  "accesses (xs @ ys) d = (case accesses xs d of Inl x \<Rightarrow> Inl x | Inr d' \<Rightarrow> accesses ys d')"
  by (induction xs arbitrary: d) (simp_all split: sum.splits)

lemma whole_calls_are_atomic_runs:
  "accesses (concat (map atoms tr)) (whole d) = map_sum id whole (exec tr d)"
proof (induction tr arbitrary: d)
  case Nil
  show ?case by simp
next
  case (Cons e es)
  show ?case
  proof (cases "apply_event e d")
    case (Inl x)
    then show ?thesis by (simp add: accesses_append atoms_apply_event)
  next
    case (Inr d')
    then show ?thesis by (simp add: accesses_append atoms_apply_event Cons.IH)
  qed
qed

text \<open>
  So a run of whole calls from a fresh handle is one of the interleavings of single
  accesses, with the same data at its end.
\<close>

lemma whole_calls_from_new_handle:
  "accesses (concat (map atoms tr)) (new_handle cb) =
     map_sum id whole (exec tr (ParallelCallback cb))"
  using whole_calls_are_atomic_runs[of tr "ParallelCallback cb"] by (simp add: whole_new)

lemma fetchers_bound:
  assumes "distinct ws" "\<forall>i. Slot i \<in> set ws \<longrightarrow> i < n"
  shows "length ws \<le> Suc n" and "Closer \<notin> set ws \<Longrightarrow> length ws \<le> n"
proof -
  have sub: "set ws \<subseteq> insert Closer (Slot ` {..<n})"
  proof
    fix w assume "w \<in> set ws"
    with assms(2) show "w \<in> insert Closer (Slot ` {..<n})" by (cases w) auto
  qed
  have "card (set ws) \<le> card (insert Closer (Slot ` {..<n}))"
    using sub by (intro card_mono) auto
  also have "\<dots> = Suc (card (Slot ` {..<n}))" by (subst card_insert_disjoint) auto
  also have "card (Slot ` {..<n}) = n" by (simp add: card_image inj_on_def)
  finally show "length ws \<le> Suc n" using assms(1) by (simp add: distinct_card)
  assume "Closer \<notin> set ws"
  with sub have "set ws \<subseteq> Slot ` {..<n}" by auto
  then have "card (set ws) \<le> card (Slot ` {..<n})" by (intro card_mono) auto
  also have "card (Slot ` {..<n}) = n" by (simp add: card_image inj_on_def)
  finally show "length ws \<le> n" using assms(1) by (simp add: distinct_card)
qed

lemma talliedD:
  assumes "tallied p d"
  shows "distinct (fetchers p)"
    and "set (testers p) \<subseteq> set (fetchers p)"
    and "\<forall>i. Slot i \<in> set (fetchers p) \<longrightarrow> i < issued p"
    and "Closer \<in> set (fetchers p) \<longrightarrow> stored p"
    and "counter d = word_of_int (int (issued p) - int (length (fetchers p)))"
    and "started d = stored p"
    and "\<And>w. fetched d w \<noteq> None \<longleftrightarrow> w \<in> set (fetchers p) \<and> w \<notin> set (testers p)"
    and "\<And>w. fetched d w = Some 0 \<longleftrightarrow>
        fetched d w \<noteq> None \<and> length (fetchers p) = Suc (issued p) \<and> w = hd (fetchers p)"
    and "calls d = (if callback d \<and> length (fetchers p) = Suc (issued p) \<and>
                   hd (fetchers p) \<in> set (testers p) then 1 else 0)"
  using assms unfolding tallied_def by blast+

lemma tallied_Minting:
  assumes "tallied p d" "\<not> stored p"
  shows "\<exists>d'. perform Minting d = Inr d' \<and> tallied (advance p Minting) d' \<and> callback d' = callback d"
proof -
  from assms have "Closer \<notin> set (fetchers p)" by (auto simp: tallied_def)
  with assms(1) have "length (fetchers p) \<le> issued p"
    by (intro fetchers_bound(2)) (auto simp: tallied_def)
  with assms show ?thesis
    unfolding tallied_def by (auto simp: mint_def intro: less_SucI)
qed

lemma tallied_Closing:
  assumes "tallied p d" "\<not> stored p"
  shows "\<exists>d'. perform Closing d = Inr d' \<and> tallied (advance p Closing) d' \<and> callback d' = callback d"
  using assms unfolding tallied_def by simp

lemma tallied_Fetch:
  assumes "tallied p d" "allowed p (Fetch w)" "issued p < 2 ^ 31"
  shows "tallied (advance p (Fetch w)) (fetch w d) \<and> callback (fetch w d) = callback d"
proof -
  let ?f = "fetchers p"
  note t = talliedD[OF assms(1)]
  from t(1,3,4) assms(2) have new: "w \<notin> set ?f" by (cases w) auto
  from t(1,3,4) assms(2) have d': "distinct (w # ?f)"
    and s': "\<forall>i. Slot i \<in> set (w # ?f) \<longrightarrow> i < issued p"
    and c': "Closer \<in> set (w # ?f) \<longrightarrow> stored p"
    by (cases w; auto)+
  from fetchers_bound(1)[OF d' s'] have len: "length ?f \<le> issued p" by simp
  let ?v = "int (issued p) - int (length ?f)"
  from len assms(3) have "(word_of_int ?v :: cint) = 0 \<longleftrightarrow> ?v = 0"
    by (intro cint_zero_iff) simp_all
  with t(5) len have z: "counter d = 0 \<longleftrightarrow> length ?f = issued p" by auto
  from t(2) new have nt: "w \<notin> set (testers p)" by auto
  from t(8) len have old: "\<And>x. fetched d x \<noteq> Some 0" by auto
  from t(9) len have nocall: "calls d = 0" by auto
  have 5: "counter (fetch w d) = word_of_int (int (issued p) - int (length (w # ?f)))"
    using t(5) by (simp add: fetch_def)
  have 7: "\<And>x. fetched (fetch w d) x \<noteq> None \<longleftrightarrow> x \<in> set (w # ?f) \<and> x \<notin> set (testers p)"
    using t(7) nt by (auto simp: fetch_def)
  have 8: "\<And>x. fetched (fetch w d) x = Some 0 \<longleftrightarrow>
        fetched (fetch w d) x \<noteq> None \<and> length (w # ?f) = Suc (issued p) \<and> x = hd (w # ?f)"
    using z old by (auto simp: fetch_def)
  have 9: "calls (fetch w d) = (if callback (fetch w d) \<and> length (w # ?f) = Suc (issued p) \<and>
                   hd (w # ?f) \<in> set (testers p) then 1 else 0)"
    using nocall nt by (simp add: fetch_def)
  have 6: "started (fetch w d) = stored p" using t(6) by (simp add: fetch_def)
  have 2: "set (testers p) \<subseteq> set (w # ?f)" using t(2) by auto
  show ?thesis
    unfolding tallied_def using d' 2 s' c' 5 6 7 8 9 by (simp add: fetch_def)
qed

lemma tallied_Test:
  assumes "tallied p d" "allowed p (Test w)"
  shows "tallied (advance p (Test w)) (test w d) \<and> callback (test w d) = callback d"
proof -
  let ?f = "fetchers p" and ?t = "testers p"
  note t = talliedD[OF assms(1)]
  from assms(2) have inf: "w \<in> set ?f" and nt: "w \<notin> set ?t" by simp_all
  with t(7)[of w] obtain pre where pre: "fetched d w = Some pre" by auto
  from t(8)[of w] pre have win: "pre = 0 \<longleftrightarrow> length ?f = Suc (issued p) \<and> w = hd ?f"
    by auto
  have st: "started d" if l: "length ?f = Suc (issued p)"
  proof -
    have "Closer \<in> set ?f"
    proof (rule ccontr)
      assume "Closer \<notin> set ?f"
      from fetchers_bound(2)[OF t(1) t(3) this] l show False by simp
    qed
    with t(4,6) show "started d" by simp
  qed
  have other: "fetched (test w d) x = (if x = w then None else fetched d x)" for x
    using pre by (simp add: test_def Let_def)
  have keep: "counter (test w d) = counter d" "started (test w d) = started d"
    "callback (test w d) = callback d"
    using pre by (simp_all add: test_def Let_def)
  have c: "calls (test w d) = (if pre = 0 \<and> started d \<and> callback d then calls d + 1 else calls d)"
    using pre by (simp add: test_def Let_def)
  have 2: "set (w # ?t) \<subseteq> set ?f" using t(2) inf by auto
  have 7: "fetched (test w d) x \<noteq> None \<longleftrightarrow> x \<in> set ?f \<and> x \<notin> set (w # ?t)" for x
    using t(7)[of x] by (auto simp: other)
  have 8: "fetched (test w d) x = Some 0 \<longleftrightarrow>
        fetched (test w d) x \<noteq> None \<and> length ?f = Suc (issued p) \<and> x = hd ?f" for x
    using t(8)[of x] by (auto simp: other)
  have 9: "calls (test w d) = (if callback (test w d) \<and> length ?f = Suc (issued p) \<and>
                   hd ?f \<in> set (w # ?t) then 1 else 0)"
  proof (cases "length ?f = Suc (issued p) \<and> w = hd ?f")
    case True
    then have l: "length ?f = Suc (issued p)" and hw: "hd ?f = w" by simp_all
    from True win st have "pre = 0" "started d" by simp_all
    then have "calls (test w d) = (if callback d then calls d + 1 else calls d)"
      by (simp add: c)
    moreover from hw nt have "hd ?f \<notin> set ?t" by simp
    with t(9) have "calls d = 0" by simp
    ultimately show ?thesis using l hw by (simp add: keep)
  next
    case False
    with win t(9) show ?thesis by (auto simp add: c keep)
  qed
  show ?thesis
    unfolding tallied_def using t(1) 2 t(3) t(4) t(5) t(6) 7 8 9 by (simp add: keep)
qed

lemma issued_after: "issued (progress_after p tr) = issued p + issues tr"
proof (induction tr arbitrary: p)
  case Nil
  show ?case by (simp add: issues_def)
next
  case (Cons a as)
  then show ?case by (cases a) (simp_all add: issues_def)
qed

lemma stored_after: "stored (progress_after p tr) \<longleftrightarrow> stored p \<or> Closing \<in> set tr"
proof (induction tr arbitrary: p)
  case Nil
  show ?case by simp
next
  case (Cons a as)
  then show ?case by (cases a) auto
qed

lemma testers_after: "Test w \<in> set tr \<Longrightarrow> w \<in> set (testers (progress_after p tr))"
  and testers_kept: "w \<in> set (testers p) \<Longrightarrow> w \<in> set (testers (progress_after p tr))"
proof (induction tr arbitrary: p)
  case Nil
  { case 1 then show ?case by simp }
  { case 2 then show ?case by simp }
next
  case (Cons a as)
  { case 1
    show ?case
    proof (cases "a = Test w")
      case True
      have "w \<in> set (testers (advance p a))" using True by simp
      from Cons.IH(2)[OF this] show ?thesis by simp
    next
      case False
      with 1 have "Test w \<in> set as" by simp
      from Cons.IH(1)[OF this] show ?thesis by simp
    qed }
  { case 2
    then have "w \<in> set (testers (advance p a))" by (cases a) simp_all
    from Cons.IH(2)[OF this] show ?case by simp }
qed

lemma tallied_access:
  assumes "tallied p d" "allowed p a" "issued (advance p a) < 2 ^ 31"
  shows "\<exists>d'. perform a d = Inr d' \<and> tallied (advance p a) d' \<and> callback d' = callback d"
proof (cases a)
  case Minting
  with assms tallied_Minting[of p d] show ?thesis by simp
next
  case Closing
  with assms tallied_Closing[of p d] show ?thesis by simp
next
  case (Fetch w)
  with assms tallied_Fetch[of p d w] show ?thesis by simp
next
  case (Test w)
  with assms tallied_Test[of p d w] show ?thesis by simp
qed

lemma tallied_accesses:
  assumes "tallied p d" "in_program_order p tr" "issued (progress_after p tr) < 2 ^ 31"
  shows "\<exists>d'. accesses tr d = Inr d' \<and> tallied (progress_after p tr) d' \<and>
              callback d' = callback d"
  using assms
proof (induction tr arbitrary: p d)
  case Nil
  then show ?case by simp
next
  case (Cons a as)
  have "issued (advance p a) \<le> issued (progress_after (advance p a) as)"
    by (simp add: issued_after)
  with Cons.prems have small: "issued (advance p a) < 2 ^ 31" by simp
  from Cons.prems have "allowed p a" by simp
  from tallied_access[OF Cons.prems(1) this small]
  obtain d1 where d1: "perform a d = Inr d1" "tallied (advance p a) d1" "callback d1 = callback d"
    by blast
  from Cons.prems have "in_program_order (advance p a) as"
    "issued (progress_after (advance p a) as) < 2 ^ 31"
    by simp_all
  from Cons.IH[OF d1(2) this] d1 show ?case by auto
qed

lemma tallied_start: "tallied nothing (new_handle cb)"
  by (simp add: tallied_def nothing_def new_handle_def)

lemma atomic_run_tallied:
  assumes "in_program_order nothing tr" "issues tr < 2 ^ 31"
  shows "\<exists>d. accesses tr (new_handle cb) = Inr d \<and> tallied (progress_after nothing tr) d \<and>
             callback d = cb"
proof -
  from assms(2) have "issued (progress_after nothing tr) < 2 ^ 31"
    by (simp add: issued_after nothing_def)
  from tallied_accesses[OF tallied_start assms(1) this, of cb]
  show ?thesis by (simp add: new_handle_def)
qed

lemma all_fetched_started:
  assumes "tallied p d" "length (fetchers p) = Suc (issued p)"
  shows "stored p"
proof -
  note t = talliedD[OF assms(1)]
  have "Closer \<in> set (fetchers p)"
  proof (rule ccontr)
    assume "Closer \<notin> set (fetchers p)"
    from fetchers_bound(2)[OF t(1) t(3) this] assms(2) show False by simp
  qed
  with t(4) show ?thesis by simp
qed

text \<open>
  Single fire for every interleaving of the single accesses: once \<open>check\<close> and each of
  the \<open>N\<close> slots have made both their accesses, the completion has been called once.
\<close>

lemma single_fire_atomic:
  assumes "finished N tr" "N < 2 ^ 31"
  shows "\<exists>d. accesses tr (new_handle True) = Inr d \<and> calls d = 1"
proof -
  let ?p = "progress_after nothing tr"
  from assms have po: "in_program_order nothing tr" and n: "issues tr = N" and i: "issues tr < 2 ^ 31"
    by (simp_all add: finished_def)
  from atomic_run_tallied[OF po i, of True] obtain d where
    d: "accesses tr (new_handle True) = Inr d" "tallied ?p d" "callback d"
    by blast
  note t = talliedD[OF d(2)]
  have iss: "issued ?p = N" using n by (simp add: issued_after nothing_def)
  have all: "insert Closer (Slot ` {..<N}) \<subseteq> set (testers ?p)"
    using assms(1) by (auto simp: finished_def intro: testers_after)
  with t(2) have sub: "insert Closer (Slot ` {..<N}) \<subseteq> set (fetchers ?p)" by auto
  have "card (insert Closer (Slot ` {..<N})) \<le> card (set (fetchers ?p))"
    using sub by (intro card_mono) auto
  moreover have "card (insert Closer (Slot ` {..<N})) = Suc (card (Slot ` {..<N}))"
    by (subst card_insert_disjoint) auto
  moreover have "card (Slot ` {..<N}) = N" by (simp add: card_image inj_on_def)
  ultimately have "Suc N \<le> length (fetchers ?p)" using t(1) by (simp add: distinct_card)
  moreover from fetchers_bound(1)[OF t(1) t(3)] iss have "length (fetchers ?p) \<le> Suc N" by simp
  ultimately have len: "length (fetchers ?p) = Suc (issued ?p)" using iss by simp
  then have "fetchers ?p \<noteq> []" by auto
  then have "hd (fetchers ?p) \<in> set (fetchers ?p)" by simp
  moreover have "set (fetchers ?p) \<subseteq> insert Closer (Slot ` {..<N})"
  proof
    fix w assume "w \<in> set (fetchers ?p)"
    with t(3) iss show "w \<in> insert Closer (Slot ` {..<N})" by (cases w) auto
  qed
  ultimately have "hd (fetchers ?p) \<in> set (testers ?p)" using all by blast
  with t(9) len d(3) have "calls d = 1" by simp
  with d(1) show ?thesis by blast
qed

section \<open>The claims\<close>

text \<open>
  Where a theorem below keeps the number of mints under \<open>2 ^ 31\<close>, that is the range
  of the \<open>int\<close> counter: with more slots outstanding the counter wraps around.
  \<open>ParallelCallback True\<close> is a handle over a completion that holds a target; a
  completion without a target is never called (\<open>empty_completion_never_called\<close>).
\<close>

text \<open>
  Claim C1 (single fire). For every number \<open>N\<close> of slots and every order of the calls
  in which all mints precede \<open>check\<close>, \<open>check\<close> is called once and each of the
  \<open>N\<close> slots is invoked exactly once after its mint, the run ends with exactly one call
  of the completion.
\<close>

theorem single_fire:
  assumes "complete_run N tr" "N < 2 ^ 31"
  shows "\<exists>d. exec tr (ParallelCallback True) = Inr d \<and> calls d = 1"
proof -
  from assms have ob: "obeys unused tr" and m: "mints tr < 2 ^ 31" and cl: "Close \<in> set tr"
    and n: "mints tr = N"
    by (simp_all add: complete_run_def)
  from run_accounted[OF ob m, of True] obtain d where
    d: "exec tr (ParallelCallback True) = Inr d" "accounted (usage_after unused tr) d" "callback d"
    by blast
  from complete_all_invoked[OF assms(1) d(2)] have "length (invocations tr) = N" .
  with d cl n have "calls d = 1"
    by (simp add: accounted_def minted_after invoked_after closed_after unused_def)
  with d(1) show ?thesis by blast
qed

theorem single_fire_witness:
  "complete_run 2 [Mint, Mint, Invoke 1, Close, Invoke 0] \<and>
   (\<exists>d. exec [Mint, Mint, Invoke 1, Close, Invoke 0] (ParallelCallback True) = Inr d \<and> calls d = 1)"
proof -
  have c: "complete_run 2 [Mint, Mint, Invoke 1, Close, Invoke 0]"
    by (simp add: complete_run_def unused_def mints_def less_Suc_eq numeral_2_eq_2)
  have "(2::nat) < 2 ^ 31" by simp
  from c single_fire[OF c this] show ?thesis by simp
qed

text \<open>
  Claim C2 (when \<open>step\<close> fires), as stated: \<open>step\<close> calls the completion exactly when
  the value of the counter after the decrement is at most 0 and \<open>started\<close> holds. After
  two mints and \<open>check\<close> the counter is 1 and \<open>started\<close> is set; the next slot
  invocation takes the counter to 0 and does not call the completion.
\<close>

theorem step_post_decrement_counterexample:
  "exec [Mint, Mint, Close] (ParallelCallback True) =
     Inr \<lparr>callback = True, counter = 1, started = True, calls = 0\<rparr> \<and>
   sint (counter (step \<lparr>callback = True, counter = 1, started = True, calls = 0\<rparr>)) \<le> 0 \<and>
   started (step \<lparr>callback = True, counter = 1, started = True, calls = 0\<rparr>) \<and>
   calls (step \<lparr>callback = True, counter = 1, started = True, calls = 0\<rparr>) = 0"
  by (simp add: step_def ParallelCallback_def mint_def check_def)

text \<open>
  Claim C2, amended: \<open>step\<close> calls the completion exactly when the counter was 0 before
  the decrement (so it is \<open>-1\<close> afterwards), \<open>started\<close> holds and the completion
  holds a target.
\<close>

theorem step_fires_on_pre_decrement_zero:
  "calls (step d) = (if counter d = 0 \<and> started d \<and> callback d then calls d + 1 else calls d) \<and>
   counter (step d) = counter d - 1 \<and>
   (calls (step d) = calls d + 1 \<longleftrightarrow> sint (counter (step d)) = -1 \<and> started d \<and> callback d)"
proof -
  have "sint (counter d - 1) = (- 1 :: int) \<longleftrightarrow> counter d - 1 = - 1"
    by (simp add: word_eq_iff_signed[where 'a = int])
  then have "sint (counter d - 1) = (- 1 :: int) \<longleftrightarrow> counter d = 0" by simp
  then show ?thesis by (simp add: step_calls)
qed

text \<open>
  Claim C3 (no fire before all slots are invoked). In a run that keeps the contract and
  mints \<open>N\<close> slots, after any prefix in which fewer than \<open>N\<close> slots have been
  invoked the completion has not been called, whether or not \<open>check\<close> is part of the
  prefix.
\<close>

theorem no_fire_before_all_invoked:
  assumes "obeys unused tr" "mints tr = N" "N < 2 ^ 31"
    and "length (invocations (take k tr)) < N"
  shows "\<exists>d. exec (take k tr) (ParallelCallback cb) = Inr d \<and> calls d = 0"
proof -
  let ?p = "take k tr" and ?r = "drop k tr"
  from assms(1,2) have "obeys unused (?p @ ?r)" and n: "mints (?p @ ?r) = N"
    by simp_all
  then have ob: "obeys unused ?p" and rest: "obeys (usage_after unused ?p) ?r"
    by (simp_all only: obeys_append)
  from n assms(3) have m: "mints ?p < 2 ^ 31" by (simp only: mints_append)
  from run_accounted[OF ob m, of cb] obtain d where
    d: "exec ?p (ParallelCallback cb) = Inr d" "accounted (usage_after unused ?p) d"
    by blast
  have "calls d = 0"
  proof (cases "Close \<in> set ?p")
    case True
    then have "closed (usage_after unused ?p)" by (simp add: closed_after)
    from no_mint_when_closed[OF this rest] n have "mints ?p = N" by (simp only: mints_append)
    with assms(4) d(2) show ?thesis
      by (simp add: accounted_def minted_after invoked_after unused_def)
  next
    case False
    with d(2) show ?thesis by (simp add: accounted_def closed_after unused_def)
  qed
  with d(1) show ?thesis by blast
qed

theorem no_fire_before_all_invoked_witness:
  "obeys unused [Mint, Mint, Invoke 1, Close, Invoke 0] \<and>
   mints [Mint, Mint, Invoke 1, Close, Invoke 0] = 2 \<and>
   length (invocations (take 4 [Mint, Mint, Invoke 1, Close, Invoke 0])) < 2 \<and>
   (\<exists>d. exec (take 4 [Mint, Mint, Invoke 1, Close, Invoke 0]) (ParallelCallback True) = Inr d \<and>
        calls d = 0)"
proof -
  have c: "obeys unused [Mint, Mint, Invoke 1, Close, Invoke 0]"
    and m: "mints [Mint, Mint, Invoke 1, Close, Invoke 0] = 2"
    by (simp_all add: unused_def mints_def)
  have b: "(2::nat) < 2 ^ 31" by simp
  have l: "length (invocations (take 4 [Mint, Mint, Invoke 1, Close, Invoke 0])) < 2" by simp
  from c m l no_fire_before_all_invoked[OF c m b l, of True] show ?thesis by blast
qed

text \<open>
  Claim C4 (\<open>check\<close> is one decrement). After any run without \<open>check\<close>, whatever
  the number of slots still outstanding, the completion has not been called, and
  \<open>check\<close> sets \<open>started\<close> and then runs \<open>step\<close> once: the counter is lowered
  by one, and the completion is called inside \<open>check\<close> exactly when the counter was 0.
  So when as many slots have been invoked as were minted, in particular when none was
  minted, the completion is called once inside \<open>check\<close>.
\<close>

theorem close_is_one_decrement:
  assumes "Close \<notin> set tr"
  shows "\<exists>d d'. exec tr (ParallelCallback True) = Inr d \<and> \<not> started d \<and> calls d = 0 \<and>
           counter d = word_of_nat (mints tr) - word_of_nat (length (invocations tr)) \<and>
           check d = Inr d' \<and> d' = step (d\<lparr>started := True\<rparr>) \<and>
           started d' \<and> counter d' = counter d - 1 \<and>
           calls d' = (if counter d = 0 then 1 else 0) \<and>
           (length (invocations tr) = mints tr \<longrightarrow> calls d' = 1)"
proof -
  have "\<not> started (ParallelCallback True)" by (simp add: ParallelCallback_def)
  from exec_before_check[OF assms this] obtain d where
    d: "exec tr (ParallelCallback True) = Inr d" "\<not> started d" "calls d = 0" "callback d"
      "counter d = word_of_nat (mints tr) - word_of_nat (length (invocations tr))"
    by (auto simp: ParallelCallback_def)
  from d(2) have c: "check d = Inr (step (d\<lparr>started := True\<rparr>))" by (simp add: check_def)
  from d(3,4) have f: "calls (step (d\<lparr>started := True\<rparr>)) = (if counter d = 0 then 1 else 0)"
    by (simp add: step_calls)
  from d(5) have z: "length (invocations tr) = mints tr \<longrightarrow> counter d = 0" by simp
  from d(1,2,3,5) c f z show ?thesis by simp
qed

theorem close_is_one_decrement_witness:
  "check (ParallelCallback True) =
     Inr \<lparr>callback = True, counter = - 1, started = True, calls = 1\<rparr> \<and>
   exec [Mint, Invoke 0, Mint, Invoke 1] (ParallelCallback True) =
     Inr \<lparr>callback = True, counter = 0, started = False, calls = 0\<rparr> \<and>
   check \<lparr>callback = True, counter = 0, started = False, calls = 0\<rparr> =
     Inr \<lparr>callback = True, counter = - 1, started = True, calls = 1\<rparr> \<and>
   exec [Mint, Mint] (ParallelCallback True) =
     Inr \<lparr>callback = True, counter = 2, started = False, calls = 0\<rparr> \<and>
   check \<lparr>callback = True, counter = 2, started = False, calls = 0\<rparr> =
     Inr \<lparr>callback = True, counter = 1, started = True, calls = 0\<rparr> \<and>
   exec [Mint, Mint, Close, Invoke 0, Invoke 1] (ParallelCallback True) =
     Inr \<lparr>callback = True, counter = - 1, started = True, calls = 1\<rparr>"
proof -
  let ?a = "[Mint, Invoke 0, Mint, Invoke 1]" and ?b = "[Mint, Mint]"
  have c0: "Close \<notin> set []" and ca: "Close \<notin> set ?a" and cb: "Close \<notin> set ?b"
    by simp_all
  have e0: "exec [] (ParallelCallback True) = Inr (ParallelCallback True)" by simp
  have ea: "exec ?a (ParallelCallback True) =
      Inr \<lparr>callback = True, counter = 0, started = False, calls = 0\<rparr>"
    and eb: "exec ?b (ParallelCallback True) =
      Inr \<lparr>callback = True, counter = 2, started = False, calls = 0\<rparr>"
    and ec: "exec [Mint, Mint, Close, Invoke 0, Invoke 1] (ParallelCallback True) =
      Inr \<lparr>callback = True, counter = - 1, started = True, calls = 1\<rparr>"
    by (simp_all add: ParallelCallback_def mint_def check_def step_def)
  from close_is_one_decrement[OF c0] e0 obtain d0 where
    "check (ParallelCallback True) = Inr d0" "started d0"
    "counter d0 = counter (ParallelCallback True) - 1" "calls d0 = 1"
    "d0 = step ((ParallelCallback True)\<lparr>started := True\<rparr>)"
    by (auto simp: mints_def)
  then have A: "check (ParallelCallback True) =
     Inr \<lparr>callback = True, counter = - 1, started = True, calls = 1\<rparr>"
    by (simp add: ParallelCallback_def step_def)
  from close_is_one_decrement[OF ca] ea obtain da where
    "check \<lparr>callback = True, counter = 0, started = False, calls = 0\<rparr> = Inr da"
    "da = step (\<lparr>callback = True, counter = 0, started = False, calls = 0\<rparr>\<lparr>started := True\<rparr>)"
    by auto
  then have B: "check \<lparr>callback = True, counter = 0, started = False, calls = 0\<rparr> =
     Inr \<lparr>callback = True, counter = - 1, started = True, calls = 1\<rparr>"
    by (simp add: step_def)
  from close_is_one_decrement[OF cb] eb obtain db where
    "check \<lparr>callback = True, counter = 2, started = False, calls = 0\<rparr> = Inr db"
    "db = step (\<lparr>callback = True, counter = 2, started = False, calls = 0\<rparr>\<lparr>started := True\<rparr>)"
    by auto
  then have C: "check \<lparr>callback = True, counter = 2, started = False, calls = 0\<rparr> =
     Inr \<lparr>callback = True, counter = 1, started = True, calls = 0\<rparr>"
    by (simp add: step_def)
  from A ea B eb C ec show ?thesis by simp
qed

text \<open>
  Claim C5 (no starters), as stated: \<open>run(completion)\<close> with no starter calls the
  completion once before it returns. The call has no matching \<open>operator()\<close>, so there
  is no run in which it returns.
\<close>

theorem run_without_starters_counterexample:
  "\<not> (\<exists>d. run True [] = Inr d \<and> calls d = 1)"
  by (simp add: run_def)

text \<open>
  Claim C5, amended: \<open>run\<close> needs at least one starter. The join without slots is made
  with the handle itself: \<open>check\<close> on a fresh handle over a completion that holds a
  target calls it exactly once before \<open>check\<close> returns.
\<close>

theorem zero_slots_fire_at_check:
  "run cb [] = Inl NoMatchingOverload \<and>
   check (ParallelCallback True) = Inr \<lparr>callback = True, counter = - 1, started = True, calls = 1\<rparr>"
  by (simp add: run_def check_def ParallelCallback_def step_def)

text \<open>
  Claim C6 (\<open>run\<close>). With at least one starter, \<open>run\<close> makes one handle over the
  completion, then for each starter in order mints a slot and calls the starter with it,
  and calls \<open>check\<close> after the last starter: it is the helper \<open>run_spec\<close>, which
  is written from the specification with operations of its own. With \<open>n + 1\<close>
  starters that call their slot at once, the result is the handle over the given
  completion, closed, with the counter at \<open>-1\<close> and the completion called once if it
  holds a target; with \<open>n + 1\<close> starters that keep their slot, it is that handle,
  closed, with \<open>n\<close> left on the counter and the completion not called.
\<close>

theorem run_mints_then_closes:
  "(args \<noteq> [] \<longrightarrow> run arg args = run_spec arg args) \<and>
   run arg (replicate (Suc n) at_once) =
     Inr \<lparr>callback = arg, counter = - 1, started = True, calls = (if arg then 1 else 0)\<rparr> \<and>
   (Suc n < 2 ^ 31 \<longrightarrow>
      run arg (replicate (Suc n) later) =
        Inr \<lparr>callback = arg, counter = word_of_nat n, started = True, calls = 0\<rparr>)"
proof (intro conjI impI)
  assume "args \<noteq> []"
  then show "run arg args = run_spec arg args"
    by (simp add: run_def run_spec_def call_operator_start_each ParallelCallback_def
        JoinState_construct_def)
next
  have "run arg (replicate (Suc n) at_once) =
      JoinCallback_close (ParallelCallback arg)"
    using call_operator_start_each[of "replicate (Suc n) at_once" "ParallelCallback arg"]
      start_each_at_once[of "ParallelCallback arg" "Suc n"]
    by (simp add: run_def ParallelCallback_def)
  then show "run arg (replicate (Suc n) at_once) =
     Inr \<lparr>callback = arg, counter = - 1, started = True, calls = (if arg then 1 else 0)\<rparr>"
    by (simp add: JoinCallback_close_def JoinState_try_fire_def ParallelCallback_def)
next
  assume small: "Suc n < 2 ^ 31"
  have "\<not> 2 ^ 32 dvd Suc n"
    using small by (auto dest!: dvd_imp_le)
  then have "(word_of_nat (Suc n) :: cint) \<noteq> 0"
    using word_of_nat_eq_0_iff[where 'a = 32 and n = "Suc n"] by (simp del: of_nat_Suc)
  then have nz: "(1 + word_of_nat n :: cint) \<noteq> 0" by simp
  have "run arg (replicate (Suc n) later) =
      JoinCallback_close ((ParallelCallback arg)\<lparr>counter := word_of_nat (Suc n)\<rparr>)"
    using call_operator_start_each[of "replicate (Suc n) later" "ParallelCallback arg"]
      start_each_later[of "ParallelCallback arg" "Suc n"]
    by (simp add: run_def ParallelCallback_def)
  then show "run arg (replicate (Suc n) later) =
        Inr \<lparr>callback = arg, counter = word_of_nat n, started = True, calls = 0\<rparr>"
    using nz by (simp add: JoinCallback_close_def JoinState_try_fire_def ParallelCallback_def)
qed

theorem run_mints_then_closes_witness:
  "[later, at_once] \<noteq> [] \<and> run True [later, at_once] = run_spec True [later, at_once] \<and>
   run True [later, at_once] = Inr \<lparr>callback = True, counter = 0, started = True, calls = 0\<rparr> \<and>
   run False [at_once] = run_spec False [at_once] \<and>
   run False [at_once] = Inr \<lparr>callback = False, counter = - 1, started = True, calls = 0\<rparr> \<and>
   run True [at_once, at_once] =
     Inr \<lparr>callback = True, counter = - 1, started = True, calls = 1\<rparr> \<and>
   run True [later, later] =
     Inr \<lparr>callback = True, counter = 1, started = True, calls = 0\<rparr>"
proof -
  have a: "run True [later, at_once] =
          Inr \<lparr>callback = True, counter = 0, started = True, calls = 0\<rparr>"
    by (simp add: run_def ParallelCallback_def mint_def check_def step_def later_def
        at_once_def)
  have c: "run False [at_once] =
          Inr \<lparr>callback = False, counter = - 1, started = True, calls = 0\<rparr>"
    by (simp add: run_def ParallelCallback_def mint_def check_def step_def at_once_def)
  have r2: "replicate (Suc 1) at_once = [at_once, at_once]"
    and r3: "replicate (Suc 1) later = [later, later]"
    by simp_all
  have s: "Suc 1 < (2::nat) ^ 31" by simp
  from run_mints_then_closes[of "[later, at_once]" True 1]
    run_mints_then_closes[of "[at_once]" False 1] a c s
  show ?thesis unfolding r2 r3 by simp
qed

text \<open>
  Claim C7 (assertions), as stated: a mint after \<open>check\<close> has been called fails its
  assertion, and so does a second \<open>check\<close>. Each assertion only reads \<open>started\<close>,
  which the first \<open>check\<close> writes in a later access. A second \<open>check\<close> that asserts
  before that store passes, and both return. A mint called after \<open>check\<close> was called,
  asserting before the store, passes too; its slot then calls the completion a second
  time.
\<close>

theorem overlapping_misuse_counterexample:
  "parts [AssertCheck, AssertCheck, StoreCheck, Step, StoreCheck, Step] (ParallelCallback True) =
     Inr \<lparr>callback = True, counter = - 2, started = True, calls = 1\<rparr> \<and>
   parts [AssertCheck, AssertMint, StoreCheck, Step, IncrementMint, Step] (ParallelCallback True) =
     Inr \<lparr>callback = True, counter = - 1, started = True, calls = 2\<rparr>"
  by (simp add: ParallelCallback_def step_def)

text \<open>
  Claim C7, amended: a mint or a \<open>check\<close> whose assertion is evaluated after a
  \<open>check\<close> has stored \<open>started\<close> fails it, so a mint or a second \<open>check\<close> called
  after a \<open>check\<close> has returned always does. No assertion fails exactly when none is
  evaluated after a store; in particular none fails when the calls do not overlap and
  every mint precedes the one \<open>check\<close>.
\<close>

theorem misuse_asserts:
  "parts (pre @ StoreCheck # mid @ AssertMint # post) d = Inl AssertionFailed \<and>
   parts (pre @ StoreCheck # mid @ AssertCheck # post) d = Inl AssertionFailed \<and>
   exec (before @ Close # between @ Mint # after) d = Inl AssertionFailed \<and>
   exec (before @ Close # between @ Close # after) d = Inl AssertionFailed \<and>
   ((\<exists>d'. parts ps (ParallelCallback cb) = Inr d') \<longleftrightarrow> asserts_before_store False ps) \<and>
   (in_order False tr \<longrightarrow> (\<exists>d'. exec tr (ParallelCallback cb) = Inr d'))"
proof -
  have "parts ((pre @ StoreCheck # mid) @ AssertMint # post) d = Inl AssertionFailed"
    by (rule parts_stop) (simp add: after_store_started)
  moreover
  have "parts ((pre @ StoreCheck # mid) @ AssertCheck # post) d = Inl AssertionFailed"
    by (rule parts_stop) (simp add: after_store_started)
  moreover
  have "exec ((before @ Close # between) @ Mint # after) d = Inl AssertionFailed"
    by (rule exec_stops) (simp add: after_close_started mint_def)
  moreover
  have "exec ((before @ Close # between) @ Close # after) d = Inl AssertionFailed"
    by (rule exec_stops) (simp add: after_close_started check_def)
  moreover
  have "(\<exists>d'. parts ps (ParallelCallback cb) = Inr d') \<longleftrightarrow> asserts_before_store False ps"
    using parts_asserts_before_store[of ps "ParallelCallback cb"]
    by (simp add: ParallelCallback_def)
  moreover
  have "in_order False tr \<longrightarrow> (\<exists>d'. exec tr (ParallelCallback cb) = Inr d')"
    using exec_in_order[of tr "ParallelCallback cb"] by (simp add: ParallelCallback_def)
  ultimately show ?thesis by simp
qed

theorem misuse_asserts_witness:
  "in_order False [Mint, Invoke 0, Mint, Close, Invoke 1] \<and>
   exec [Mint, Invoke 0, Mint, Close, Invoke 1] (ParallelCallback True) =
     Inr \<lparr>callback = True, counter = - 1, started = True, calls = 1\<rparr> \<and>
   exec [Mint, Close, Invoke 0, Mint] (ParallelCallback True) = Inl AssertionFailed \<and>
   exec [Mint, Close, Invoke 0, Close] (ParallelCallback True) = Inl AssertionFailed \<and>
   asserts_before_store False [AssertMint, AssertCheck, IncrementMint, StoreCheck, Step, Step] \<and>
   parts [AssertMint, AssertCheck, IncrementMint, StoreCheck, Step, Step] (ParallelCallback True) =
     Inr \<lparr>callback = True, counter = - 1, started = True, calls = 1\<rparr> \<and>
   parts [AssertCheck, StoreCheck, AssertMint, Step, IncrementMint] (ParallelCallback True) =
     Inl AssertionFailed \<and>
   parts [AssertCheck, StoreCheck, AssertCheck, Step, StoreCheck, Step] (ParallelCallback True) =
     Inl AssertionFailed"
proof -
  have o: "in_order False [Mint, Invoke 0, Mint, Close, Invoke 1]" by simp
  have e: "exec [Mint, Invoke 0, Mint, Close, Invoke 1] (ParallelCallback True) =
     Inr \<lparr>callback = True, counter = - 1, started = True, calls = 1\<rparr>"
    by (simp add: ParallelCallback_def mint_def check_def step_def)
  have a: "asserts_before_store False
      [AssertMint, AssertCheck, IncrementMint, StoreCheck, Step, Step]"
    by simp
  have p: "parts [AssertMint, AssertCheck, IncrementMint, StoreCheck, Step, Step]
      (ParallelCallback True) =
     Inr \<lparr>callback = True, counter = - 1, started = True, calls = 1\<rparr>"
    by (simp add: ParallelCallback_def step_def)
  from misuse_asserts[of "[AssertCheck]" "[]" "[Step, IncrementMint]" "ParallelCallback True"
      "[Mint]" "[Invoke 0]" "[]" "[]" True "[Mint, Invoke 0, Mint, Close, Invoke 1]"]
    misuse_asserts[of "[AssertCheck]" "[]" "[Step, StoreCheck, Step]" "ParallelCallback True"
      "[]" "[]" "[]" "[]" True "[]"]
  show ?thesis using o e a p by simp
qed



text \<open>
  Claim C9 (counter invariant). After any run that keeps the contract, the counter is the
  number of mints minus the number of slot invocations, minus one if \<open>check\<close> has run;
  the completion has been called if and only if the counter is \<open>-1\<close>, which is where
  it rests after a complete run.
\<close>

theorem counter_invariant:
  assumes "obeys unused tr" "mints tr < 2 ^ 31"
  shows "\<exists>d. exec tr (ParallelCallback True) = Inr d \<and>
           sint (counter d) =
             int (mints tr) - int (length (invocations tr)) - (if Close \<in> set tr then 1 else 0) \<and>
           (0 < calls d \<longleftrightarrow> sint (counter d) = - 1) \<and>
           (Close \<in> set tr \<and> length (invocations tr) = mints tr \<longrightarrow> sint (counter d) = - 1)"
proof -
  from run_accounted[OF assms, of True] obtain d where
    d: "exec tr (ParallelCallback True) = Inr d" "accounted (usage_after unused tr) d" "callback d"
    by blast
  let ?v = "pending (usage_after unused tr)"
  have le: "length (invocations tr) \<le> mints tr" by (rule invocations_le_mints[OF d(2)])
  have v: "?v = int (mints tr) - int (length (invocations tr)) - (if Close \<in> set tr then 1 else 0)"
    by (rule pending_after)
  from le assms(2) have "- (2 ^ 31) \<le> ?v" "?v < 2 ^ 31" by (simp_all add: v)
  then have "sint (word_of_int ?v :: cint) = ?v" by (rule cint_sint)
  with d(2) have s: "sint (counter d) = ?v" by (simp add: accounted_def)
  from d(2,3) have c: "calls d = (if Close \<in> set tr \<and> length (invocations tr) = mints tr then 1 else 0)"
    by (simp add: accounted_def minted_after invoked_after closed_after unused_def)
  from c le have "0 < calls d \<longleftrightarrow> ?v = - 1" by (simp add: v)
  with s v d(1) show ?thesis by auto
qed

theorem counter_invariant_witness:
  "obeys unused [Mint, Mint, Invoke 1, Close, Invoke 0] \<and>
   (\<exists>d. exec [Mint, Mint, Invoke 1, Close, Invoke 0] (ParallelCallback True) = Inr d \<and>
        sint (counter d) = - 1 \<and> 0 < calls d) \<and>
   obeys unused [Mint, Mint, Invoke 1, Close] \<and>
   (\<exists>d. exec [Mint, Mint, Invoke 1, Close] (ParallelCallback True) = Inr d \<and>
        sint (counter d) = 0 \<and> calls d = 0)"
proof -
  let ?a = "[Mint, Mint, Invoke 1, Close, Invoke 0]" and ?b = "[Mint, Mint, Invoke 1, Close]"
  have oa: "obeys unused ?a" and ma: "mints ?a < 2 ^ 31"
    and ob: "obeys unused ?b" and mb: "mints ?b < 2 ^ 31"
    by (simp_all add: unused_def mints_def)
  from counter_invariant[OF oa ma] obtain d where
    d: "exec ?a (ParallelCallback True) = Inr d"
       "sint (counter d) = int (mints ?a) - int (length (invocations ?a)) -
          (if Close \<in> set ?a then 1 else 0)"
       "0 < calls d \<longleftrightarrow> sint (counter d) = - 1"
    by (elim exE conjE)
  from d(2) have "sint (counter d) = - 1" by (simp add: mints_def)
  with d(1,3) have A: "\<exists>d. exec ?a (ParallelCallback True) = Inr d \<and>
        sint (counter d) = - 1 \<and> 0 < calls d" by blast
  from counter_invariant[OF ob mb] obtain e where
    e: "exec ?b (ParallelCallback True) = Inr e"
       "sint (counter e) = int (mints ?b) - int (length (invocations ?b)) -
          (if Close \<in> set ?b then 1 else 0)"
       "0 < calls e \<longleftrightarrow> sint (counter e) = - 1"
    by (elim exE conjE)
  from e(2) have "sint (counter e) = 0" by (simp add: mints_def)
  with e(1,3) have B: "\<exists>d. exec ?b (ParallelCallback True) = Inr d \<and>
        sint (counter d) = 0 \<and> calls d = 0" by auto
  from oa A ob B show ?thesis by blast
qed

text \<open>
  Claim C10 (the winner comes after \<open>check\<close>). After any interleaving of the single
  accesses that keeps the program order: a caller of \<open>step\<close> that is about to fetch
  while the counter is 0 does so after \<open>check\<close> has stored \<open>started\<close>; and a caller
  that holds a fetched 0 finds \<open>started\<close> set, so its test calls the completion
  whenever the completion holds a target.
\<close>

theorem winner_after_close:
  assumes "in_program_order nothing tr" "issues tr < 2 ^ 31"
  shows "\<exists>d. accesses tr (new_handle cb) = Inr d \<and>
           (\<forall>w. allowed (progress_after nothing tr) (Fetch w) \<and> counter d = 0 \<longrightarrow>
                Closing \<in> set tr \<and> started d) \<and>
           (\<forall>w. fetched d w = Some 0 \<longrightarrow>
                Closing \<in> set tr \<and> started d \<and>
                calls (test w d) = (if cb then calls d + 1 else calls d))"
proof -
  let ?p = "progress_after nothing tr"
  from atomic_run_tallied[OF assms, of cb] obtain d where
    d: "accesses tr (new_handle cb) = Inr d" "tallied ?p d" "callback d = cb"
    by blast
  note t = talliedD[OF d(2)]
  have cl: "stored ?p \<longleftrightarrow> Closing \<in> set tr" by (simp add: stored_after nothing_def)
  have small: "issued ?p < 2 ^ 31" using assms(2) by (simp add: issued_after nothing_def)
  have a: "Closing \<in> set tr \<and> started d" if al: "allowed ?p (Fetch w)" and z: "counter d = 0" for w
  proof (rule ccontr)
    assume "\<not> (Closing \<in> set tr \<and> started d)"
    with cl t(6) have ns: "\<not> stored ?p" by simp
    with al obtain i where w: "w = Slot i" by (cases w) auto
    from al w t(1,3) have "distinct (w # fetchers ?p)"
      "\<forall>j. Slot j \<in> set (w # fetchers ?p) \<longrightarrow> j < issued ?p"
      by auto
    moreover from ns t(4) w have "Closer \<notin> set (w # fetchers ?p)" by auto
    ultimately have "length (w # fetchers ?p) \<le> issued ?p" by (rule fetchers_bound(2))
    then have lt: "length (fetchers ?p) < issued ?p" by simp
    let ?v = "int (issued ?p) - int (length (fetchers ?p))"
    from lt small have "(word_of_int ?v :: cint) = 0 \<longleftrightarrow> ?v = 0"
      by (intro cint_zero_iff) simp_all
    with t(5) z lt show False by simp
  qed
  have b: "Closing \<in> set tr \<and> started d \<and> calls (test w d) = (if cb then calls d + 1 else calls d)"
    if f: "fetched d w = Some 0" for w
  proof -
    from t(8)[of w] f have "length (fetchers ?p) = Suc (issued ?p)" by simp
    from all_fetched_started[OF d(2) this] have "stored ?p" .
    with cl t(6) have "Closing \<in> set tr" "started d" by simp_all
    with f d(3) show ?thesis by (simp add: test_def Let_def)
  qed
  from d(1) a b show ?thesis by blast
qed

theorem winner_after_close_witness:
  "in_program_order nothing [Minting, Minting, Fetch (Slot 1), Closing, Fetch Closer] \<and>
   allowed (progress_after nothing [Minting, Minting, Fetch (Slot 1), Closing, Fetch Closer])
     (Fetch (Slot 0)) \<and>
   (\<exists>d. accesses [Minting, Minting, Fetch (Slot 1), Closing, Fetch Closer] (new_handle True) = Inr d \<and>
        counter d = 0 \<and> started d) \<and>
   in_program_order nothing
     [Minting, Minting, Fetch (Slot 1), Closing, Fetch Closer, Fetch (Slot 0), Test Closer] \<and>
   (\<exists>d. accesses
          [Minting, Minting, Fetch (Slot 1), Closing, Fetch Closer, Fetch (Slot 0), Test Closer]
          (new_handle True) = Inr d \<and>
        fetched d (Slot 0) = Some 0 \<and> started d \<and> calls d = 0 \<and> calls (test (Slot 0) d) = 1)"
proof -
  let ?a = "[Minting, Minting, Fetch (Slot 1), Closing, Fetch Closer]"
  let ?b = "[Minting, Minting, Fetch (Slot 1), Closing, Fetch Closer, Fetch (Slot 0), Test Closer]"
  have oa: "in_program_order nothing ?a" and ia: "issues ?a < 2 ^ 31"
    and al: "allowed (progress_after nothing ?a) (Fetch (Slot 0))"
    by (simp_all add: nothing_def issues_def)
  have ob: "in_program_order nothing ?b" and ib: "issues ?b < 2 ^ 31"
    by (simp_all add: nothing_def issues_def)
  from winner_after_close[OF oa ia, of True] obtain d where
    d: "accesses ?a (new_handle True) = Inr d"
       "\<forall>w. allowed (progress_after nothing ?a) (Fetch w) \<and> counter d = 0 \<longrightarrow>
            Closing \<in> set ?a \<and> started d"
    by blast
  from d(1) have "counter d = 0"
    by (auto simp add: new_handle_def mint_def fetch_def)
  with d(2) al have "counter d = 0 \<and> started d" by blast
  with d(1) have A: "\<exists>d. accesses ?a (new_handle True) = Inr d \<and> counter d = 0 \<and> started d"
    by blast
  from winner_after_close[OF ob ib, of True] obtain e where
    e: "accesses ?b (new_handle True) = Inr e"
       "\<forall>w. fetched e w = Some 0 \<longrightarrow> Closing \<in> set ?b \<and> started e \<and>
            calls (test w e) = (if True then calls e + 1 else calls e)"
    by blast
  from e(1) have f: "fetched e (Slot 0) = Some 0" and c: "calls e = 0"
    by (auto simp add: new_handle_def mint_def fetch_def test_def)
  with e(2) have "started e \<and> calls (test (Slot 0) e) = 1" by auto
  with e(1) f c have B: "\<exists>d. accesses ?b (new_handle True) = Inr d \<and>
        fetched d (Slot 0) = Some 0 \<and> started d \<and> calls d = 0 \<and> calls (test (Slot 0) d) = 1"
    by blast
  from oa al A ob B show ?thesis by blast
qed

end
